theory Spec2Isabelle
  imports Complex_Main "HOL-Library.Multiset"
begin

section \<open>Data model\<close>

text \<open>
  The program reads a CAN database through three kinds of objects: nodes (a name),
  messages (\<open>frame_id\<close>, \<open>name\<close>, \<open>senders\<close>, \<open>signals\<close>) and signals
  (\<open>receivers\<close>). Only the attributes that \<open>dbcview.py\<close> reads are modelled.
  Python integers are unbounded, so \<open>frame_id\<close> is an \<open>int\<close>.
\<close>

record node =
  node_name :: string

record signal =
  sig_receivers :: "string list"

record message =
  frame_id :: int
  msg_name :: string
  msg_senders :: "string list"
  msg_signals :: "signal list"

record database =
  db_nodes :: "node list"
  db_messages :: "message list"

type_synonym edge = "string \<times> string \<times> message"

text \<open>A message with nothing but an identifier, for concrete inputs.\<close>

abbreviation bare_msg :: "int \<Rightarrow> message" where
  "bare_msg k \<equiv> \<lparr>frame_id = k, msg_name = [], msg_senders = [], msg_signals = []\<rparr>"

section \<open>\<open>sort_messages_by_CAN_id\<close>\<close>

text \<open>
  The source loop:
  \<^verbatim>\<open>
    i = 0
    while (i < len(msgs) - 2):
        if msgs[i].frame_id > msgs[i + 1].frame_id:
            tmp = msgs[i]; msgs[i] = msgs[i+1]; msgs[i+1] = tmp
            i = 0
        i += 1
    return msgs
  \<close>
  The loop test is evaluated over Python's integers (\<open>len(msgs) - 2\<close> is negative for
  lists shorter than two). After a swap \<open>i\<close> is set to \<open>0\<close> and then incremented by the
  unconditional \<open>i += 1\<close>, so the next iteration runs with \<open>i = 0 + 1\<close>. Both reads
  \<open>msgs[i]\<close> and \<open>msgs[i + 1]\<close> are in range under the loop test.
\<close>

definition swap_adjacent :: "'a list \<Rightarrow> nat \<Rightarrow> 'a list" where
  "swap_adjacent msgs i = msgs[i := msgs ! (i + 1), i + 1 := msgs ! i]"

text \<open>The loop as written, with nothing assumed about its termination: not returning is \<open>None\<close>.\<close>

partial_function (option) sort_while :: "message list \<Rightarrow> nat \<Rightarrow> message list option" where
  "sort_while msgs i =
     (if int i < int (length msgs) - 2 then
        (if frame_id (msgs ! i) > frame_id (msgs ! (i + 1))
         then sort_while (swap_adjacent msgs i) (0 + 1)
         else sort_while msgs (i + 1))
      else Some msgs)"

text \<open>The loop with a bound on the number of loop tests: \<open>None\<close> when the bound runs out.\<close>

fun sort_fuel :: "nat \<Rightarrow> message list \<Rightarrow> nat \<Rightarrow> message list option" where
  "sort_fuel 0 msgs i = None"
| "sort_fuel (Suc n) msgs i =
     (if int i < int (length msgs) - 2 then
        (if frame_id (msgs ! i) > frame_id (msgs ! (i + 1))
         then sort_fuel n (swap_adjacent msgs i) (0 + 1)
         else sort_fuel n msgs (i + 1))
      else Some msgs)"

text \<open>The number of inversions of a list of keys: the termination measure of the loop.\<close>

fun inversions :: "int list \<Rightarrow> nat" where
  "inversions [] = 0"
| "inversions (x # xs) = length (filter (\<lambda>y. y < x) xs) + inversions xs"

lemma swap_adjacent_append:
  "swap_adjacent (xs @ a # b # ys) (length xs) = xs @ b # a # ys"
  by (simp add: swap_adjacent_def list_update_append nth_append)

lemma adjacent_split:
  assumes "i + 1 < length msgs"
  shows "msgs = take i msgs @ msgs ! i # msgs ! (i + 1) # drop (i + 2) msgs"
proof -
  have "drop i msgs = msgs ! i # drop (Suc i) msgs"
    using assms by (simp add: Cons_nth_drop_Suc)
  moreover have "drop (Suc i) msgs = msgs ! (Suc i) # drop (Suc (Suc i)) msgs"
    using assms by (simp add: Cons_nth_drop_Suc)
  ultimately have "drop i msgs = msgs ! i # msgs ! (i + 1) # drop (i + 2) msgs"
    by simp
  then show ?thesis
    by (metis append_take_drop_id)
qed

lemma swap_adjacent_decomp:
  assumes "i + 1 < length msgs"
  shows "swap_adjacent msgs i = take i msgs @ msgs ! (i + 1) # msgs ! i # drop (i + 2) msgs"
proof -
  have len: "length (take i msgs) = i" using assms by simp
  have "swap_adjacent (take i msgs @ msgs ! i # msgs ! (i + 1) # drop (i + 2) msgs)
          (length (take i msgs))
        = take i msgs @ msgs ! (i + 1) # msgs ! i # drop (i + 2) msgs"
    by (rule swap_adjacent_append)
  then show ?thesis
    using adjacent_split[OF assms] len by simp
qed

lemma length_swap_adjacent [simp]: "length (swap_adjacent msgs i) = length msgs"
  by (simp add: swap_adjacent_def)

lemma inversions_swap:
  "b < a \<Longrightarrow> inversions (xs @ a # b # ys) = Suc (inversions (xs @ b # a # ys))"
  by (induction xs) auto

text \<open>Each swap of the loop removes exactly one inversion.\<close>

lemma inversions_swap_adjacent:
  assumes "i + 1 < length msgs" and "frame_id (msgs ! (i + 1)) < frame_id (msgs ! i)"
  shows "inversions (map frame_id (swap_adjacent msgs i)) < inversions (map frame_id msgs)"
proof -
  let ?xs = "map frame_id (take i msgs)" and ?ys = "map frame_id (drop (i + 2) msgs)"
  let ?a = "frame_id (msgs ! i)" and ?b = "frame_id (msgs ! (i + 1))"
  have "map frame_id msgs = ?xs @ ?a # ?b # ?ys"
    using adjacent_split[OF assms(1)] by (metis list.simps(9) map_append)
  moreover have "map frame_id (swap_adjacent msgs i) = ?xs @ ?b # ?a # ?ys"
    using swap_adjacent_decomp[OF assms(1)] by simp
  ultimately show ?thesis
    using inversions_swap[OF assms(2), of ?xs ?ys] by simp
qed

text \<open>
  The same loop as a total function. Its termination proof is the argument that the loop
  ends: a swap lowers the number of inversions, a step without a swap keeps the list and
  moves \<open>i\<close> towards the bound.
\<close>

function sort_loop :: "message list \<Rightarrow> nat \<Rightarrow> message list" where
  "sort_loop msgs i =
     (if int i < int (length msgs) - 2 then
        (if frame_id (msgs ! i) > frame_id (msgs ! (i + 1))
         then sort_loop (swap_adjacent msgs i) (0 + 1)
         else sort_loop msgs (i + 1))
      else msgs)"
  by pat_completeness auto
termination
proof (relation "measures [\<lambda>(msgs, i). inversions (map frame_id msgs), \<lambda>(msgs, i). length msgs - i]")
  show "wf (measures [\<lambda>(msgs, i). inversions (map frame_id msgs), \<lambda>(msgs, i). length msgs - i])"
    by simp
next
  fix msgs :: "message list" and i :: nat
  assume "int i < int (length msgs) - 2" and "frame_id (msgs ! (i + 1)) < frame_id (msgs ! i)"
  then show "((swap_adjacent msgs i, 0 + 1), msgs, i)
      \<in> measures [\<lambda>(msgs, i). inversions (map frame_id msgs), \<lambda>(msgs, i). length msgs - i]"
    using inversions_swap_adjacent[of i msgs] by simp
next
  fix msgs :: "message list" and i :: nat
  assume "int i < int (length msgs) - 2" and "\<not> frame_id (msgs ! (i + 1)) < frame_id (msgs ! i)"
  then show "((msgs, i + 1), msgs, i)
      \<in> measures [\<lambda>(msgs, i). inversions (map frame_id msgs), \<lambda>(msgs, i). length msgs - i]"
    by auto
qed

declare sort_loop.simps [simp del]

definition sort_messages_by_CAN_id :: "message list \<Rightarrow> message list" where
  "sort_messages_by_CAN_id msgs = sort_loop msgs 0"

subsection \<open>Termination\<close>

lemma sort_while_eq_sort_loop: "sort_while msgs i = Some (sort_loop msgs i)"
proof (induction msgs i rule: sort_loop.induct)
  case (1 msgs i)
  show ?case
    using 1 by (subst sort_while.simps, subst sort_loop.simps) auto
qed

text \<open>
  A swap removes an inversion and restarts at index \<open>1\<close>; a step without a swap moves
  \<open>i\<close> forward. So \<open>inversions * length + (length - i)\<close> drops with every loop test, and
  that many tests, plus the last one that fails, are enough.
\<close>

lemma sort_fuel_enough:
  "inversions (map frame_id msgs) * length msgs + (length msgs - i) < n \<Longrightarrow>
     sort_fuel n msgs i = Some (sort_loop msgs i)"
proof (induction n arbitrary: msgs i)
  case 0
  then show ?case by simp
next
  case (Suc n)
  show ?case
  proof (cases "int i < int (length msgs) - 2")
    case False
    then show ?thesis by (subst sort_loop.simps) simp
  next
    case True
    then have i: "i + 2 < length msgs" by simp
    show ?thesis
    proof (cases "frame_id (msgs ! i) > frame_id (msgs ! (i + 1))")
      case swap: True
      let ?msgs = "swap_adjacent msgs i"
      have "inversions (map frame_id ?msgs) < inversions (map frame_id msgs)"
        using inversions_swap_adjacent[of i msgs] i swap by simp
      then have "Suc (inversions (map frame_id ?msgs)) \<le> inversions (map frame_id msgs)"
        by simp
      then have "Suc (inversions (map frame_id ?msgs)) * length msgs
          \<le> inversions (map frame_id msgs) * length msgs"
        by (rule mult_le_mono1)
      then have "inversions (map frame_id ?msgs) * length ?msgs + (length ?msgs - (0 + 1)) < n"
        using Suc.prems i by simp
      then have "sort_fuel n ?msgs (0 + 1) = Some (sort_loop ?msgs (0 + 1))"
        by (rule Suc.IH)
      then show ?thesis using True swap by (subst sort_loop.simps) simp
    next
      case keep: False
      have "inversions (map frame_id msgs) * length msgs + (length msgs - (i + 1)) < n"
        using Suc.prems i by simp
      then have "sort_fuel n msgs (i + 1) = Some (sort_loop msgs (i + 1))"
        by (rule Suc.IH)
      then show ?thesis using True keep by (subst sort_loop.simps) simp
    qed
  qed
qed

text \<open>
  Claim C9. \<open>sort_messages_by_CAN_id\<close> terminates on every input list, although the scan
  index is reset after each swap. The while loop, started at \<open>i = 0\<close> and modelled with
  no assumption that it ends, returns a list, the value of the total model. Each swap
  strictly lowers the number of inversions (\<open>inversions_swap_adjacent\<close>), which bounds
  the work: \<open>(inversions + 1) * length + 1\<close> loop tests are enough.
\<close>

theorem sort_messages_by_CAN_id_terminates:
  "sort_while msgs 0 = Some (sort_messages_by_CAN_id msgs) \<and>
   sort_fuel ((inversions (map frame_id msgs) + 1) * length msgs + 1) msgs 0
     = Some (sort_messages_by_CAN_id msgs)"
proof -
  have "sort_fuel ((inversions (map frame_id msgs) + 1) * length msgs + 1) msgs 0
      = Some (sort_loop msgs 0)"
    by (rule sort_fuel_enough) simp
  then show ?thesis
    by (simp add: sort_while_eq_sort_loop sort_messages_by_CAN_id_def)
qed

subsection \<open>The result is a permutation of the input\<close>

lemma mset_swap_adjacent:
  "i + 1 < length msgs \<Longrightarrow> mset (swap_adjacent msgs i) = mset msgs"
  unfolding swap_adjacent_def by (simp add: mset_swap)

lemma mset_sort_loop: "mset (sort_loop msgs i) = mset msgs"
proof (induction msgs i rule: sort_loop.induct)
  case (1 msgs i)
  show ?case
  proof (cases "int i < int (length msgs) - 2")
    case True
    then have "i + 1 < length msgs" by simp
    with True 1 show ?thesis
      by (subst sort_loop.simps) (simp add: mset_swap_adjacent)
  next
    case False
    then show ?thesis by (subst sort_loop.simps) simp
  qed
qed

lemma length_sort_loop [simp]: "length (sort_loop msgs i) = length msgs"
  by (metis mset_sort_loop size_mset)

text \<open>
  Claim C8. The list returned by \<open>sort_messages_by_CAN_id\<close> is a permutation of its
  input: the multiset of messages is preserved, and with it the multiset of frame ids.
\<close>

theorem sort_messages_by_CAN_id_permutation:
  "mset (sort_messages_by_CAN_id msgs) = mset msgs \<and>
   mset (map frame_id (sort_messages_by_CAN_id msgs)) = mset (map frame_id msgs)"
proof -
  have m: "mset (sort_messages_by_CAN_id msgs) = mset msgs"
    by (simp add: sort_messages_by_CAN_id_def mset_sort_loop)
  have "mset (map frame_id (sort_messages_by_CAN_id msgs))
        = image_mset frame_id (mset (sort_messages_by_CAN_id msgs))"
    by simp
  also have "\<dots> = mset (map frame_id msgs)"
    by (simp add: m)
  finally show ?thesis using m by simp
qed

subsection \<open>Which adjacent pairs end up in order\<close>

text \<open>
  The pairs that the loop has scanned since its last restart are in order. A restart
  resumes at index \<open>1\<close>, so the invariant speaks of the indices from \<open>1\<close> on.
\<close>

lemma sort_loop_scanned:
  assumes "\<forall>j. 1 \<le> j \<and> j < i \<longrightarrow> frame_id (msgs ! j) \<le> frame_id (msgs ! (j + 1))"
  shows "\<forall>j. 1 \<le> j \<and> j + 2 < length msgs \<longrightarrow>
           frame_id (sort_loop msgs i ! j) \<le> frame_id (sort_loop msgs i ! (j + 1))"
  using assms
proof (induction msgs i rule: sort_loop.induct)
  case (1 msgs i)
  show ?case
  proof (cases "int i < int (length msgs) - 2")
    case False
    then have "sort_loop msgs i = msgs" by (subst sort_loop.simps) simp
    moreover have "\<forall>j. j + 2 < length msgs \<longrightarrow> j < i" using False by auto
    ultimately show ?thesis using "1.prems" by auto
  next
    case True
    show ?thesis
    proof (cases "frame_id (msgs ! i) > frame_id (msgs ! (i + 1))")
      case swap: True
      have eq: "sort_loop msgs i = sort_loop (swap_adjacent msgs i) (0 + 1)"
        using True swap by (subst sort_loop.simps) simp
      have "\<forall>j. 1 \<le> j \<and> j + 2 < length (swap_adjacent msgs i) \<longrightarrow>
           frame_id (sort_loop (swap_adjacent msgs i) (0 + 1) ! j)
             \<le> frame_id (sort_loop (swap_adjacent msgs i) (0 + 1) ! (j + 1))"
        by (rule "1.IH"(1)[OF True swap]) simp
      then show ?thesis using eq by simp
    next
      case keep: False
      have eq: "sort_loop msgs i = sort_loop msgs (i + 1)"
        using True keep by (subst sort_loop.simps) simp
      have "\<forall>j. 1 \<le> j \<and> j < i + 1 \<longrightarrow> frame_id (msgs ! j) \<le> frame_id (msgs ! (j + 1))"
        using "1.prems" keep
        by (metis Suc_eq_plus1 less_Suc_eq not_le_imp_less order_less_imp_le linorder_not_less)
      from "1.IH"(2)[OF True keep this] show ?thesis using eq by simp
    qed
  qed
qed

text \<open>
  What the loop does establish: every adjacent pair at an index \<open>j\<close> with \<open>1 \<le> j\<close> and
  \<open>j + 2 < length msgs\<close> is in ascending order. Neither the first pair nor the pair with
  the final element is covered.
\<close>

lemma sort_messages_by_CAN_id_inner_pairs:
  "1 \<le> j \<Longrightarrow> j + 2 < length msgs \<Longrightarrow>
     frame_id (sort_messages_by_CAN_id msgs ! j) \<le> frame_id (sort_messages_by_CAN_id msgs ! (j + 1))"
  using sort_loop_scanned[of 0 msgs] by (simp add: sort_messages_by_CAN_id_def)

text \<open>
  Claim C4. The claim says that after the call every adjacent pair is in ascending order
  of \<open>frame_id\<close>, except possibly the pair with the final element. The code restarts its
  scan at index \<open>1\<close> (\<open>i = 0\<close> followed by \<open>i += 1\<close>), not at the beginning, so the first
  pair can stay out of order: on the identifiers \<open>3, 2, 1, 10, 11\<close> it returns
  \<open>2, 1, 3, 10, 11\<close>, whose first pair \<open>(2, 1)\<close> is descending and does not involve the
  final element.
\<close>

theorem sort_messages_by_CAN_id_first_pair_unsorted:
  "map frame_id (sort_messages_by_CAN_id [bare_msg 3, bare_msg 2, bare_msg 1, bare_msg 10, bare_msg 11])
     = [2, 1, 3, 10, 11]"
  by (simp add: sort_messages_by_CAN_id_def sort_loop.simps swap_adjacent_def)

subsection \<open>The order after repeated calls\<close>

lemma sort_loop_fixed:
  assumes "\<forall>j. i \<le> j \<and> j + 2 < length msgs \<longrightarrow> frame_id (msgs ! j) \<le> frame_id (msgs ! (j + 1))"
  shows "sort_loop msgs i = msgs"
  using assms
proof (induction msgs i rule: sort_loop.induct)
  case (1 msgs i)
  show ?case
  proof (cases "int i < int (length msgs) - 2")
    case False
    then show ?thesis by (subst sort_loop.simps) simp
  next
    case True
    then have "i + 2 < length msgs" by simp
    with "1.prems" have keep: "\<not> frame_id (msgs ! (i + 1)) < frame_id (msgs ! i)"
      by (simp add: not_less)
    have "sort_loop msgs (i + 1) = msgs"
      using "1.IH"(2)[OF True keep] "1.prems" by simp
    then show ?thesis using True keep by (subst sort_loop.simps) simp
  qed
qed

lemma nth_swap_adjacent:
  assumes "i + 1 < length msgs"
  shows "swap_adjacent msgs i ! j =
    (if j = i then msgs ! (i + 1) else if j = i + 1 then msgs ! i else msgs ! j)"
  using assms by (simp add: swap_adjacent_def nth_list_update)

text \<open>Started at an index from 1 on, the loop leaves the first element where it is, and
  a first element that is no larger than the elements before the last stays so.\<close>

lemma sort_loop_first:
  assumes "1 \<le> i"
    and "\<forall>j. 1 \<le> j \<and> j + 1 < length msgs \<longrightarrow> frame_id (msgs ! 0) \<le> frame_id (msgs ! j)"
  shows "sort_loop msgs i ! 0 = msgs ! 0 \<and>
    (\<forall>j. 1 \<le> j \<and> j + 1 < length msgs \<longrightarrow>
       frame_id (sort_loop msgs i ! 0) \<le> frame_id (sort_loop msgs i ! j))"
  using assms
proof (induction msgs i rule: sort_loop.induct)
  case (1 msgs i)
  show ?case
  proof (cases "int i < int (length msgs) - 2")
    case False
    then have "sort_loop msgs i = msgs" by (subst sort_loop.simps) simp
    then show ?thesis using "1.prems" by simp
  next
    case True
    then have i: "i + 2 < length msgs" by simp
    show ?thesis
    proof (cases "frame_id (msgs ! i) > frame_id (msgs ! (i + 1))")
      case swap: True
      let ?msgs = "swap_adjacent msgs i"
      have eq: "sort_loop msgs i = sort_loop ?msgs (0 + 1)"
        using True swap by (subst sort_loop.simps) simp
      have z: "?msgs ! 0 = msgs ! 0"
        using i "1.prems"(1) by (simp add: nth_swap_adjacent)
      have "\<forall>j. 1 \<le> j \<and> j + 1 < length ?msgs \<longrightarrow> frame_id (?msgs ! 0) \<le> frame_id (?msgs ! j)"
        using i "1.prems" by (auto simp: nth_swap_adjacent z)
      from "1.IH"(1)[OF True swap _ this] z show ?thesis
        unfolding eq by auto
    next
      case keep: False
      have eq: "sort_loop msgs i = sort_loop msgs (i + 1)"
        using True keep by (subst sort_loop.simps) simp
      from "1.IH"(2)[OF True keep _ "1.prems"(2)] show ?thesis
        unfolding eq by auto
    qed
  qed
qed

lemma ascending_from_one:
  assumes "\<forall>j. 1 \<le> j \<and> j + 2 < length msgs \<longrightarrow> frame_id (msgs ! j) \<le> frame_id (msgs ! (j + 1))"
  shows "1 \<le> j \<Longrightarrow> j + 1 < length msgs \<Longrightarrow> frame_id (msgs ! 1) \<le> frame_id (msgs ! j)"
proof (induction j)
  case 0
  then show ?case by simp
next
  case (Suc j)
  show ?case
  proof (cases "j = 0")
    case True
    then show ?thesis by simp
  next
    case False
    then have "frame_id (msgs ! 1) \<le> frame_id (msgs ! j)"
      using Suc by simp
    moreover have "frame_id (msgs ! j) \<le> frame_id (msgs ! (j + 1))"
      using assms False Suc.prems by simp
    ultimately show ?thesis by simp
  qed
qed

text \<open>A list whose pairs from index 1 on are in order is sorted by one more run, up to
  its last element, and a list sorted up to its last element is left as it is.\<close>

lemma sort_after_inner_pairs:
  assumes "\<forall>j. 1 \<le> j \<and> j + 2 < length msgs \<longrightarrow> frame_id (msgs ! j) \<le> frame_id (msgs ! (j + 1))"
  shows "\<forall>j. j + 2 < length (sort_loop msgs 0) \<longrightarrow>
           frame_id (sort_loop msgs 0 ! j) \<le> frame_id (sort_loop msgs 0 ! (j + 1))"
proof (cases "int 0 < int (length msgs) - 2")
  case False
  then show ?thesis by simp
next
  case True
  then have len: "2 < length msgs" by simp
  show ?thesis
  proof (cases "frame_id (msgs ! 0) > frame_id (msgs ! (0 + 1))")
    case keep: False
    have "\<forall>j. 0 \<le> j \<and> j + 2 < length msgs \<longrightarrow> frame_id (msgs ! j) \<le> frame_id (msgs ! (j + 1))"
      using assms keep by (metis One_nat_def Suc_leI add_0 bot_nat_0.not_eq_extremum not_less)
    then have "sort_loop msgs 0 = msgs" by (rule sort_loop_fixed)
    then show ?thesis using assms keep
      by (metis One_nat_def Suc_leI add_0 bot_nat_0.not_eq_extremum not_less)
  next
    case swap: True
    let ?msgs = "swap_adjacent msgs 0"
    have eq: "sort_loop msgs 0 = sort_loop ?msgs (0 + 1)"
      using True swap by (subst (1) sort_loop.simps) simp
    have first: "\<forall>j. 1 \<le> j \<and> j + 1 < length ?msgs \<longrightarrow> frame_id (?msgs ! 0) \<le> frame_id (?msgs ! j)"
    proof (intro allI impI)
      fix j assume j: "1 \<le> j \<and> j + 1 < length ?msgs"
      show "frame_id (?msgs ! 0) \<le> frame_id (?msgs ! j)"
      proof (cases "j = 1")
        case True
        then show ?thesis using len swap by (simp add: nth_swap_adjacent)
      next
        case False
        then have "?msgs ! j = msgs ! j" and "?msgs ! 0 = msgs ! 1"
          using len j by (simp_all add: nth_swap_adjacent)
        then show ?thesis using ascending_from_one[OF assms, of j] j by simp
      qed
    qed
    have a: "\<forall>j. 1 \<le> j \<and> j + 1 < length ?msgs \<longrightarrow>
        frame_id (sort_loop ?msgs (0 + 1) ! 0) \<le> frame_id (sort_loop ?msgs (0 + 1) ! j)"
      using sort_loop_first[of "0 + 1" ?msgs] first by auto
    have b: "\<forall>j. 1 \<le> j \<and> j + 2 < length ?msgs \<longrightarrow>
        frame_id (sort_loop ?msgs (0 + 1) ! j) \<le> frame_id (sort_loop ?msgs (0 + 1) ! (j + 1))"
      by (rule sort_loop_scanned) simp
    show ?thesis
    proof (intro allI impI)
      fix j assume j: "j + 2 < length (sort_loop msgs 0)"
      show "frame_id (sort_loop msgs 0 ! j) \<le> frame_id (sort_loop msgs 0 ! (j + 1))"
      proof (cases "j = 0")
        case True
        then show ?thesis using a j unfolding eq by simp
      next
        case False
        then show ?thesis using b j unfolding eq by simp
      qed
    qed
  qed
qed

text \<open>
  One call does not always reach a fixed point of the loop (see the concrete list above:
  its result has a descending first pair, which the next call swaps), but two calls do.
\<close>

lemma sort_messages_by_CAN_id_stable:
  "sort_messages_by_CAN_id (sort_messages_by_CAN_id (sort_messages_by_CAN_id msgs))
     = sort_messages_by_CAN_id (sort_messages_by_CAN_id msgs)"
proof -
  let ?m1 = "sort_loop msgs 0"
  have "\<forall>j. 1 \<le> j \<and> j + 2 < length ?m1 \<longrightarrow> frame_id (?m1 ! j) \<le> frame_id (?m1 ! (j + 1))"
    using sort_loop_scanned[of 0 msgs] by simp
  then have "\<forall>j. j + 2 < length (sort_loop ?m1 0) \<longrightarrow>
      frame_id (sort_loop ?m1 0 ! j) \<le> frame_id (sort_loop ?m1 0 ! (j + 1))"
    by (rule sort_after_inner_pairs)
  then have "sort_loop (sort_loop ?m1 0) 0 = sort_loop ?m1 0"
    by (intro sort_loop_fixed) simp
  then show ?thesis by (simp add: sort_messages_by_CAN_id_def)
qed

section \<open>\<open>messages_from_a_to_b\<close> and \<open>get_edges\<close>\<close>

text \<open>
  \<^verbatim>\<open>
    matching_messages = []
    msgs_to_search = [msg for msg in messages
                      if any([sender in msg.senders for sender in senders])]
    for msg in msgs_to_search:
        for receiver in receivers:
            if any([receiver in sig.receivers for sig in msg.signals]):
                matching_messages.append(msg)
    return matching_messages
  \<close>
  The two \<open>for\<close> loops are folds over an accumulator that \<open>append\<close> extends at its end.
\<close>

definition messages_from_a_to_b :: "message list \<Rightarrow> string list \<Rightarrow> string list \<Rightarrow> message list" where
  "messages_from_a_to_b messages senders receivers =
     (let msgs_to_search =
            filter (\<lambda>msg. list_ex (\<lambda>sender. sender \<in> set (msg_senders msg)) senders) messages
      in fold (\<lambda>msg matching_messages.
                 fold (\<lambda>receiver matching_messages.
                         if list_ex (\<lambda>sig. receiver \<in> set (sig_receivers sig)) (msg_signals msg)
                         then matching_messages @ [msg]
                         else matching_messages)
                      receivers matching_messages)
              msgs_to_search [])"

text \<open>
  \<^verbatim>\<open>
    sorted_messages = sort_messages_by_CAN_id(db.messages)
    edges = []
    for sender in senders:
        for receiver in receivers:
            for msg in messages_from_a_to_b(sorted_messages, [sender], [receiver]):
                edges.append((sender, receiver, msg))
    return edges
  \<close>
  \<open>sort_messages_by_CAN_id\<close> reorders the list it is given in place, and \<open>db.messages\<close>
  is the database's own list, so the call also changes the database: the model returns
  the edge list together with the database as the call leaves it.
\<close>

definition get_edges :: "database \<Rightarrow> string list \<Rightarrow> string list \<Rightarrow> edge list \<times> database" where
  "get_edges db senders receivers =
     (let sorted_messages = sort_messages_by_CAN_id (db_messages db);
          edges =
            fold (\<lambda>sender edges.
                    fold (\<lambda>receiver edges.
                            fold (\<lambda>msg edges. edges @ [(sender, receiver, msg)])
                                 (messages_from_a_to_b sorted_messages [sender] [receiver]) edges)
                         receivers edges)
                 senders []
      in (edges, db\<lparr>db_messages := sorted_messages\<rparr>))"

subsection \<open>The qualifying condition, in the specification's words\<close>

text \<open>
  A message qualifies if at least one of the given sender names is in its sender list
  and at least one of the given receiver names is in the receiver list of at least one
  of its signals.
\<close>

definition sent_by_any :: "message \<Rightarrow> string list \<Rightarrow> bool" where
  "sent_by_any msg senders = (\<exists>sender \<in> set senders. sender \<in> set (msg_senders msg))"

definition received_by :: "message \<Rightarrow> string \<Rightarrow> bool" where
  "received_by msg receiver = (\<exists>sig \<in> set (msg_signals msg). receiver \<in> set (sig_receivers sig))"

definition qualifies :: "message \<Rightarrow> string list \<Rightarrow> string list \<Rightarrow> bool" where
  "qualifies msg senders receivers =
     (sent_by_any msg senders \<and> (\<exists>receiver \<in> set receivers. received_by msg receiver))"

text \<open>Concrete inputs: a message from \<open>A\<close> with one signal read by \<open>B\<close> and \<open>C\<close>,
  and messages from \<open>A\<close> to \<open>B\<close> with a given identifier.\<close>

abbreviation msg_a_to_bc :: message where
  "msg_a_to_bc \<equiv> \<lparr>frame_id = 1, msg_name = ''M'', msg_senders = [''A''],
      msg_signals = [\<lparr>sig_receivers = [''B'', ''C'']\<rparr>]\<rparr>"

abbreviation msg_a_to_b :: "int \<Rightarrow> message" where
  "msg_a_to_b k \<equiv> \<lparr>frame_id = k, msg_name = ''M'', msg_senders = [''A''],
      msg_signals = [\<lparr>sig_receivers = [''B'']\<rparr>]\<rparr>"

abbreviation unsorted_a_to_b :: "message list" where
  "unsorted_a_to_b \<equiv> [msg_a_to_b 3, msg_a_to_b 2, msg_a_to_b 1, msg_a_to_b 10, msg_a_to_b 11]"

subsection \<open>Closed forms of the loops\<close>

lemma fold_append_if:
  "fold (\<lambda>x acc. if P x then acc @ [f x] else acc) xs acc = acc @ map f (filter P xs)"
  by (induction xs arbitrary: acc) auto

lemma fold_append_concat:
  "fold (\<lambda>x acc. acc @ g x) xs acc = acc @ concat (map g xs)"
  by (induction xs arbitrary: acc) auto

lemma inner_receivers_fold:
  "fold (\<lambda>receiver acc. if received_by msg receiver then acc @ [msg] else acc) receivers
     = (\<lambda>acc. acc @ replicate (length (filter (received_by msg) receivers)) msg)"
  by (rule ext) (simp add: fold_append_if map_replicate_const)

lemma messages_from_a_to_b_closed:
  "messages_from_a_to_b messages senders receivers =
     concat (map (\<lambda>msg. replicate (length (filter (received_by msg) receivers)) msg)
                 (filter (\<lambda>msg. sent_by_any msg senders) messages))"
proof -
  have "messages_from_a_to_b messages senders receivers =
        fold (\<lambda>msg acc. acc @ replicate (length (filter (received_by msg) receivers)) msg)
             (filter (\<lambda>msg. sent_by_any msg senders) messages) []"
    unfolding messages_from_a_to_b_def Let_def
    by (simp add: list_ex_iff sent_by_any_def inner_receivers_fold flip: received_by_def)
  then show ?thesis by (simp add: fold_append_concat)
qed

lemma messages_from_a_to_b_single:
  "messages_from_a_to_b messages senders [receiver] =
     filter (\<lambda>msg. qualifies msg senders [receiver]) messages"
  unfolding messages_from_a_to_b_closed qualifies_def
  by (induction messages) auto

lemma set_messages_from_a_to_b:
  "set (messages_from_a_to_b messages senders receivers) =
     {msg \<in> set messages. qualifies msg senders receivers}"
  unfolding messages_from_a_to_b_closed qualifies_def
  by (auto simp: filter_empty_conv)

lemma count_list_replicate_same:
  "count_list (replicate n x) y = (if x = y then n else 0)"
  by (induction n) auto

lemma count_messages_from_a_to_b:
  "count_list (messages_from_a_to_b messages senders receivers) msg =
     (if sent_by_any msg senders
      then count_list messages msg * length (filter (received_by msg) receivers)
      else 0)"
  unfolding messages_from_a_to_b_closed
  by (induction messages) (auto simp: count_list_replicate_same)

lemma get_edges_closed:
  "fst (get_edges db senders receivers) =
     concat (map (\<lambda>sender. concat (map (\<lambda>receiver.
        map (\<lambda>msg. (sender, receiver, msg))
          (messages_from_a_to_b (sort_messages_by_CAN_id (db_messages db)) [sender] [receiver]))
        receivers)) senders)"
proof -
  have inner: "\<And>sender receiver (ms :: message list).
      fold (\<lambda>msg edges. edges @ [(sender, receiver, msg)]) ms
        = (\<lambda>edges. edges @ map (\<lambda>msg. (sender, receiver, msg)) ms)"
    subgoal for sender receiver ms
      using fold_append_if[where P = "\<lambda>_. True" and f = "\<lambda>msg. (sender, receiver, msg)" and xs = ms]
      by (intro ext) simp
    done
  have mid: "\<And>(g :: string \<Rightarrow> edge list).
      fold (\<lambda>receiver edges. edges @ g receiver) receivers
        = (\<lambda>edges. edges @ concat (map g receivers))"
    by (intro ext) (simp add: fold_append_concat)
  show ?thesis
    unfolding get_edges_def Let_def
    by (simp add: inner mid fold_append_concat)
qed

lemma get_edges_db: "snd (get_edges db senders receivers)
    = db\<lparr>db_messages := sort_messages_by_CAN_id (db_messages db)\<rparr>"
  by (simp add: get_edges_def Let_def)

subsection \<open>Claims about \<open>messages_from_a_to_b\<close> and \<open>get_edges\<close>\<close>

text \<open>
  Claim C5, as stated: every qualifying message is returned exactly once. The inner loop
  appends the message once for every entry of \<open>receivers\<close> that one of its signals
  lists, so a message whose signal is read by both \<open>B\<close> and \<open>C\<close> is returned twice for
  the receiver names \<open>B, C\<close>.
\<close>

theorem messages_from_a_to_b_returns_twice:
  "qualifies msg_a_to_bc [''A''] [''B'', ''C''] \<and>
   messages_from_a_to_b [msg_a_to_bc] [''A''] [''B'', ''C''] = [msg_a_to_bc, msg_a_to_bc]"
  by (auto simp: messages_from_a_to_b_def qualifies_def sent_by_any_def received_by_def)

text \<open>
  Claim C5, amended. The messages returned are exactly the qualifying messages of the
  input, in input order: the result is the list of the input messages that one of the
  sender names sends, each occurrence repeated once for every entry of \<open>receivers\<close> that
  is in the receiver list of one of its signals (and so left out if there is none).
  With a single receiver name, as in every call that \<open>get_edges\<close> makes, the result is
  the input filtered by the qualifying condition: each qualifying occurrence once.
\<close>

theorem messages_from_a_to_b_multiplicity:
  "messages_from_a_to_b messages senders receivers
     = concat (map (\<lambda>msg. replicate (length (filter (received_by msg) receivers)) msg)
                   (filter (\<lambda>msg. sent_by_any msg senders) messages)) \<and>
   set (messages_from_a_to_b messages senders receivers)
     = {msg \<in> set messages. qualifies msg senders receivers} \<and>
   count_list (messages_from_a_to_b messages senders receivers) msg
     = (if sent_by_any msg senders
        then count_list messages msg * length (filter (received_by msg) receivers)
        else 0) \<and>
   messages_from_a_to_b messages senders [receiver]
     = filter (\<lambda>msg. qualifies msg senders [receiver]) messages"
proof -
  note messages_from_a_to_b_closed[of messages senders receivers]
  moreover note set_messages_from_a_to_b[of messages senders receivers]
  moreover note count_messages_from_a_to_b[of messages senders receivers msg]
  moreover note messages_from_a_to_b_single[of messages senders receiver]
  ultimately show ?thesis by (intro conjI)
qed

text \<open>
  Claim C10. \<open>get_edges\<close> returns the empty edge list whenever the list of sender names
  or the list of receiver names is empty, whatever the database holds.
\<close>

theorem get_edges_empty_names:
  "senders = [] \<or> receivers = [] \<Longrightarrow> fst (get_edges db senders receivers) = []"
  by (auto simp: get_edges_closed)

theorem get_edges_empty_names_witness:
  "(([] :: string list) = [] \<or> [''B''] = []) \<and>
   fst (get_edges \<lparr>db_nodes = [], db_messages = [msg_a_to_b 1]\<rparr> [] [''B'']) = []"
  using get_edges_empty_names[of "[]" "[''B'']" "\<lparr>db_nodes = [], db_messages = [msg_a_to_b 1]\<rparr>"]
  by simp

text \<open>
  What a call returns depends on the database only through its message list: calls on
  databases with equal message lists return equal edge lists and leave equal message
  lists behind. And on a database that an earlier call has been made on, a call and the
  call that follows it return identical lists: the two calls have brought the message
  list to a fixed point of the sort.
\<close>

lemma get_edges_same_state:
  assumes "db_messages db = db_messages db'"
  shows "fst (get_edges db senders receivers) = fst (get_edges db' senders receivers) \<and>
     db_messages (snd (get_edges db senders receivers))
       = db_messages (snd (get_edges db' senders receivers))"
  using assms by (simp add: get_edges_closed get_edges_db)

lemma get_edges_later_calls:
  "fst (get_edges (snd (get_edges (snd (get_edges db senders0 receivers0)) senders receivers))
          senders receivers)
     = fst (get_edges (snd (get_edges db senders0 receivers0)) senders receivers)"
  by (simp add: get_edges_closed get_edges_db sort_messages_by_CAN_id_stable)

text \<open>
  Claim C3. The claim says that \<open>get_edges\<close> is idempotent: called twice with identical
  inputs it returns two identical ordered edge lists. The call sorts the message list of
  the database in place, and after a single call the order that
  \<open>sort_messages_by_CAN_id\<close> leaves need not be a fixed point of the sort, because the
  scan restarts at index \<open>1\<close>. On a database with the nodes \<open>A\<close> and \<open>B\<close> and five
  messages from \<open>A\<close> to \<open>B\<close> with the identifiers \<open>3, 2, 1, 10, 11\<close>, the first call
  with senders \<open>A\<close> and receivers \<open>B\<close> returns the edges in the order
  \<open>2, 1, 3, 10, 11\<close>, and the second call on the same database in the order
  \<open>1, 2, 3, 10, 11\<close>.
\<close>

theorem get_edges_second_call_differs:
  "map (\<lambda>(sender, receiver, msg). frame_id msg)
     (fst (get_edges \<lparr>db_nodes = [\<lparr>node_name = ''A''\<rparr>, \<lparr>node_name = ''B''\<rparr>],
                      db_messages = unsorted_a_to_b\<rparr> [''A''] [''B'']))
     = [2, 1, 3, 10, 11] \<and>
   map (\<lambda>(sender, receiver, msg). frame_id msg)
     (fst (get_edges (snd (get_edges \<lparr>db_nodes = [\<lparr>node_name = ''A''\<rparr>, \<lparr>node_name = ''B''\<rparr>],
                                       db_messages = unsorted_a_to_b\<rparr> [''A''] [''B'']))
            [''A''] [''B'']))
     = [1, 2, 3, 10, 11] \<and>
   fst (get_edges (snd (get_edges \<lparr>db_nodes = [\<lparr>node_name = ''A''\<rparr>, \<lparr>node_name = ''B''\<rparr>],
                                  db_messages = unsorted_a_to_b\<rparr> [''A''] [''B'']))
          [''A''] [''B''])
     \<noteq> fst (get_edges \<lparr>db_nodes = [\<lparr>node_name = ''A''\<rparr>, \<lparr>node_name = ''B''\<rparr>],
                        db_messages = unsorted_a_to_b\<rparr> [''A''] [''B''])"
proof -
  let ?db = "\<lparr>db_nodes = [\<lparr>node_name = ''A''\<rparr>, \<lparr>node_name = ''B''\<rparr>],
               db_messages = unsorted_a_to_b\<rparr>"
  let ?ids = "map (\<lambda>(sender, receiver, msg). frame_id msg)"
  have first: "?ids (fst (get_edges ?db [''A''] [''B''])) = [2, 1, 3, 10, 11]"
    by (simp add: get_edges_closed messages_from_a_to_b_def
        sort_messages_by_CAN_id_def sort_loop.simps swap_adjacent_def)
  have second: "?ids (fst (get_edges (snd (get_edges ?db [''A''] [''B''])) [''A''] [''B'']))
      = [1, 2, 3, 10, 11]"
    by (simp add: get_edges_closed get_edges_db messages_from_a_to_b_def
        sort_messages_by_CAN_id_def sort_loop.simps swap_adjacent_def)
  have "fst (get_edges (snd (get_edges ?db [''A''] [''B''])) [''A''] [''B''])
      \<noteq> fst (get_edges ?db [''A''] [''B''])"
  proof
    assume "fst (get_edges (snd (get_edges ?db [''A''] [''B''])) [''A''] [''B''])
      = fst (get_edges ?db [''A''] [''B''])"
    then have "?ids (fst (get_edges (snd (get_edges ?db [''A''] [''B''])) [''A''] [''B'']))
      = ?ids (fst (get_edges ?db [''A''] [''B'']))"
      by (rule arg_cong)
    then show False unfolding first second by simp
  qed
  with first second show ?thesis by (intro conjI)
qed

section \<open>\<open>to_hex_str\<close> and \<open>color_str_for_msg\<close>\<close>

subsection \<open>Python's \<open>hex\<close>, \<open>str\<close> and \<open>int\<close>\<close>

text \<open>
  \<open>hex(n)\<close> is \<open>0x\<close> followed by the lowercase hexadecimal digits of \<open>n\<close> without leading
  zeros, with a minus sign in front for a negative \<open>n\<close>; \<open>str(n)\<close> is the decimal
  numeral. \<open>int(x)\<close> of a float truncates towards zero.
\<close>

definition hex_char :: "nat \<Rightarrow> char" where
  "hex_char d = ''0123456789abcdef'' ! d"

fun hex_digits :: "nat \<Rightarrow> string" where
  "hex_digits n = (if n < 16 then [hex_char n] else hex_digits (n div 16) @ [hex_char (n mod 16)])"

declare hex_digits.simps [simp del]

definition py_hex :: "int \<Rightarrow> string" where
  "py_hex n = (if n < 0 then ''-0x'' @ hex_digits (nat (- n)) else ''0x'' @ hex_digits (nat n))"

fun dec_digits :: "nat \<Rightarrow> string" where
  "dec_digits n =
     (if n < 10 then [''0123456789'' ! n]
      else dec_digits (n div 10) @ [''0123456789'' ! (n mod 10)])"

declare dec_digits.simps [simp del]

definition py_str :: "int \<Rightarrow> string" where
  "py_str n = (if n < 0 then ''-'' @ dec_digits (nat (- n)) else dec_digits (nat n))"

definition py_int :: "real \<Rightarrow> int" where
  "py_int x = (if 0 \<le> x then \<lfloor>x\<rfloor> else \<lceil>x\<rceil>)"

subsection \<open>Python's floats\<close>

text \<open>
  A Python float is an IEEE 754 double: a real number with a significand of 53 bits.
  Every arithmetic operation returns the double nearest to the exact result, ties going
  to the even significand; \<open>a / b\<close> on two integers does so too. \<open>binary64\<close> is that
  rounding. The exponent range is not modelled (no overflow, no subnormal numbers): it
  is out of reach for quotients of identifiers below \<open>2 ^ 1000\<close>.

  \<open>floor_log2 n\<close> is the position of the leading bit of \<open>n \<ge> 1\<close>, and
  \<open>float_exponent x\<close> the exponent \<open>e\<close> with \<open>2 ^ e \<le> \<bar>x\<bar> < 2 ^ (e + 1)\<close>.
\<close>

function floor_log2 :: "int \<Rightarrow> int" where
  "floor_log2 n = (if n < 2 then 0 else floor_log2 (n div 2) + 1)"
  by pat_completeness auto
termination
  by (relation "measure nat") auto

declare floor_log2.simps [simp del]

definition pow2 :: "int \<Rightarrow> real" where
  "pow2 e = (if 0 \<le> e then 2 ^ nat e else 1 / 2 ^ nat (- e))"

definition float_exponent :: "real \<Rightarrow> int" where
  "float_exponent x =
     (let a = \<bar>x\<bar>
      in if 1 \<le> a then floor_log2 \<lfloor>a\<rfloor>
         else (let j = floor_log2 \<lfloor>1 / a\<rfloor>
               in if a = pow2 (- j) then - j else - j - 1))"

definition round_half_even :: "real \<Rightarrow> int" where
  "round_half_even q =
     (let f = \<lfloor>q\<rfloor>; r = q - of_int f
      in if r < 1 / 2 then f else if 1 / 2 < r then f + 1 else if even f then f else f + 1)"

definition binary64 :: "real \<Rightarrow> real" where
  "binary64 x =
     (if x = 0 then 0
      else let ulp = pow2 (float_exponent x - 52)
           in of_int (round_half_even (x / ulp)) * ulp)"

text \<open>\<open>a / b\<close> on integers; the only call is guarded by \<open>if id_range\<close>, so \<open>b \<noteq> 0\<close> there.\<close>

definition py_truediv :: "int \<Rightarrow> int \<Rightarrow> real" where
  "py_truediv a b = binary64 (of_int a / of_int b)"

subsection \<open>The colour string\<close>

text \<open>
  \<^verbatim>\<open>
    def to_hex_str(val: float):
        return hex(int(val * 255))[2:]

    def color_str_for_msg(msg, min_id=0, max_id=0x7FF):
        fmt = "#{red}00{blue}"
        id_range = max_id - min_id
        if id_range:
            norm = (msg.frame_id - min_id) / id_range
        else:
            norm = 0.5
        out = fmt.format(red=to_hex_str(1-norm), blue=to_hex_str(norm))
        return out
  \<close>
  \<open>channel_value val\<close> is the integer \<open>int(val * 255)\<close> inside \<open>to_hex_str\<close>, and
  \<open>norm_of\<close> the value of \<open>norm\<close> inside \<open>color_str_for_msg\<close>. \<open>dbcview\<close>, the only caller,
  always passes \<open>min_id\<close> and \<open>max_id\<close>.
\<close>

definition channel_value :: "real \<Rightarrow> int" where
  "channel_value val = py_int (binary64 (val * 255))"

definition to_hex_str :: "real \<Rightarrow> string" where
  "to_hex_str val = drop 2 (py_hex (channel_value val))"

definition norm_of :: "message \<Rightarrow> int \<Rightarrow> int \<Rightarrow> real" where
  "norm_of msg min_id max_id =
     (let id_range = max_id - min_id
      in if id_range \<noteq> 0 then py_truediv (frame_id msg - min_id) id_range else 1 / 2)"

definition color_str_for_msg :: "message \<Rightarrow> int \<Rightarrow> int \<Rightarrow> string" where
  "color_str_for_msg msg min_id max_id =
     (let norm = norm_of msg min_id max_id
      in ''#'' @ to_hex_str (binary64 (1 - norm)) @ ''00'' @ to_hex_str norm)"

subsection \<open>Evaluating the float model on concrete values\<close>

lemmas float_eval = binary64_def float_exponent_def pow2_def round_half_even_def py_int_def
  py_truediv_def channel_value_def floor_log2.simps Let_def

lemmas hex_eval = to_hex_str_def py_hex_def hex_digits.simps hex_char_def

lemma binary64_0: "binary64 0 = 0"
  by (simp add: binary64_def)

lemma binary64_1: "binary64 1 = 1"
  by (simp add: float_eval)

lemma binary64_half: "binary64 (1 / 2) = 1 / 2"
  by (simp add: float_eval)

lemma to_hex_str_0: "to_hex_str 0 = ''0''"
  by (simp add: hex_eval float_eval)

lemma to_hex_str_1: "to_hex_str 1 = ''ff''"
  by (simp add: hex_eval float_eval)

lemma to_hex_str_half: "to_hex_str (1 / 2) = ''7f''"
  by (simp add: hex_eval float_eval)

text \<open>
  Rounding is visible in the red channel: \<open>4 / 5\<close> rounds up to the nearest double, so
  \<open>1 - 4 / 5\<close> computes to less than \<open>1 / 5\<close> and \<open>int((1 - 4 / 5) * 255)\<close> is \<open>50\<close>,
  not the \<open>51\<close> of exact arithmetic.
\<close>

lemma binary64_four_fifths: "binary64 (4 / 5) = 7205759403792794 / 2 ^ 53"
  by (simp add: float_eval)

lemma binary64_one_minus_four_fifths:
  "binary64 (1 - 7205759403792794 / 2 ^ 53) = 1801439850948198 / 2 ^ 53"
  by (simp add: float_eval)

lemma channel_value_red_four_fifths: "channel_value (1801439850948198 / 2 ^ 53) = 50"
  by (simp add: float_eval)

lemma channel_value_blue_four_fifths: "channel_value (7205759403792794 / 2 ^ 53) = 204"
  by (simp add: float_eval)

lemma norm_of_four_fifths: "norm_of (bare_msg 4) 0 5 = 7205759403792794 / 2 ^ 53"
  using binary64_four_fifths by (simp add: norm_of_def py_truediv_def)

subsection \<open>Two-digit channels\<close>

lemma hex_digits_two:
  assumes "16 \<le> n" and "n \<le> 255"
  shows "hex_digits n = [hex_char (n div 16), hex_char (n mod 16)]"
proof -
  have "n div 16 < 16" using assms by simp
  then have "hex_digits (n div 16) = [hex_char (n div 16)]"
    by (subst hex_digits.simps) simp
  moreover have "hex_digits n = hex_digits (n div 16) @ [hex_char (n mod 16)]"
    using assms by (subst hex_digits.simps) simp
  ultimately show ?thesis by simp
qed

lemma hex_char_lower: "d < 16 \<Longrightarrow> hex_char d \<in> set ''0123456789abcdef''"
  unfolding hex_char_def by (rule nth_mem) simp

lemma to_hex_str_two:
  assumes "16 \<le> channel_value val" and "channel_value val \<le> 255"
  shows "to_hex_str val =
    [hex_char (nat (channel_value val) div 16), hex_char (nat (channel_value val) mod 16)]"
  using assms hex_digits_two[of "nat (channel_value val)"]
  by (simp add: to_hex_str_def py_hex_def)

text \<open>
  Claim C2, as stated: the channels are \<open>round((1 - norm) * 255)\<close> and
  \<open>round(norm * 255)\<close>, each rendered as exactly two zero-padded hex digits, and for
  \<open>min_id = 0x100\<close>, \<open>max_id = 0x200\<close> the identifiers \<open>0x100\<close> and \<open>0x200\<close> give
  \<open>#ff0000\<close> and \<open>#0000ff\<close>. The code gives \<open>#ff000\<close> and \<open>#000ff\<close>: \<open>hex(0)[2:]\<close> is
  the single digit \<open>0\<close>, nothing pads it. And the channel is \<open>int(...)\<close>, a truncation:
  for \<open>norm = 1 / 2\<close> both channels are \<open>127\<close> (\<open>7f\<close>), where rounding \<open>127.5\<close> gives
  \<open>128\<close> (\<open>80\<close>).
\<close>

theorem color_str_for_msg_unpadded_truncated:
  "color_str_for_msg (bare_msg 0x100) 0x100 0x200 = ''#ff000'' \<and>
   color_str_for_msg (bare_msg 0x200) 0x100 0x200 = ''#000ff'' \<and>
   color_str_for_msg (bare_msg 1) 0 2 = ''#7f007f'' \<and>
   round ((1 - 1 / 2) * 255 :: real) = 128"
proof -
  have n1: "norm_of (bare_msg 0x100) 0x100 0x200 = 0"
    by (simp add: norm_of_def py_truediv_def binary64_0)
  have n2: "norm_of (bare_msg 0x200) 0x100 0x200 = 1"
    by (simp add: norm_of_def py_truediv_def binary64_1)
  have n3: "norm_of (bare_msg 1) 0 2 = 1 / 2"
    by (simp add: norm_of_def py_truediv_def binary64_half)
  have c1: "color_str_for_msg (bare_msg 0x100) 0x100 0x200 = ''#ff000''"
    by (simp add: color_str_for_msg_def n1 binary64_1 to_hex_str_1 to_hex_str_0)
  have c2: "color_str_for_msg (bare_msg 0x200) 0x100 0x200 = ''#000ff''"
    by (simp add: color_str_for_msg_def n2 binary64_0 to_hex_str_1 to_hex_str_0)
  have c3: "color_str_for_msg (bare_msg 1) 0 2 = ''#7f007f''"
    by (simp add: color_str_for_msg_def n3 binary64_half to_hex_str_half)
  have r: "round ((1 - 1 / 2) * 255 :: real) = 128"
    by (simp add: round_def)
  from c1 c2 c3 r show ?thesis by simp
qed

text \<open>
  Claim C2, amended. For \<open>min_id \<noteq> max_id\<close> the code computes
  \<open>norm = (frame_id - min_id) / (max_id - min_id)\<close>, the red channel
  \<open>int((1 - norm) * 255)\<close> and the blue channel \<open>int(norm * 255)\<close>, in double precision
  and truncating towards zero. Whenever both channels lie between \<open>16\<close> and \<open>255\<close>, the
  result is \<open>#\<close>, the red channel as two lowercase hex digits, \<open>00\<close>, and the blue
  channel as two lowercase hex digits.
\<close>

theorem color_str_for_msg_two_digits:
  assumes "min_id \<noteq> max_id"
    and "16 \<le> channel_value (binary64 (1 - norm_of msg min_id max_id))"
    and "channel_value (binary64 (1 - norm_of msg min_id max_id)) \<le> 255"
    and "16 \<le> channel_value (norm_of msg min_id max_id)"
    and "channel_value (norm_of msg min_id max_id) \<le> 255"
  shows "norm_of msg min_id max_id = py_truediv (frame_id msg - min_id) (max_id - min_id) \<and>
    color_str_for_msg msg min_id max_id =
      [CHR ''#'',
       hex_char (nat (channel_value (binary64 (1 - norm_of msg min_id max_id))) div 16),
       hex_char (nat (channel_value (binary64 (1 - norm_of msg min_id max_id))) mod 16),
       CHR ''0'', CHR ''0'',
       hex_char (nat (channel_value (norm_of msg min_id max_id)) div 16),
       hex_char (nat (channel_value (norm_of msg min_id max_id)) mod 16)] \<and>
    set (tl (color_str_for_msg msg min_id max_id)) \<subseteq> set ''0123456789abcdef''"
proof -
  let ?r = "channel_value (binary64 (1 - norm_of msg min_id max_id))"
  let ?b = "channel_value (norm_of msg min_id max_id)"
  have n: "norm_of msg min_id max_id = py_truediv (frame_id msg - min_id) (max_id - min_id)"
    using assms(1) by (simp add: norm_of_def)
  have c: "color_str_for_msg msg min_id max_id =
      [CHR ''#'', hex_char (nat ?r div 16), hex_char (nat ?r mod 16), CHR ''0'', CHR ''0'',
       hex_char (nat ?b div 16), hex_char (nat ?b mod 16)]"
    using to_hex_str_two[OF assms(2,3)] to_hex_str_two[OF assms(4,5)]
    by (simp add: color_str_for_msg_def Let_def)
  have "nat ?r div 16 < 16" "nat ?r mod 16 < 16" "nat ?b div 16 < 16" "nat ?b mod 16 < 16"
    using assms by auto
  then have "hex_char (nat ?r div 16) \<in> set ''0123456789abcdef''"
    "hex_char (nat ?r mod 16) \<in> set ''0123456789abcdef''"
    "hex_char (nat ?b div 16) \<in> set ''0123456789abcdef''"
    "hex_char (nat ?b mod 16) \<in> set ''0123456789abcdef''"
    by (simp_all only: hex_char_lower)
  then have "set (tl (color_str_for_msg msg min_id max_id)) \<subseteq> set ''0123456789abcdef''"
    unfolding c by simp
  with n c show ?thesis by simp
qed

theorem color_str_for_msg_two_digits_witness:
  "(0 :: int) \<noteq> 5 \<and>
   channel_value (binary64 (1 - norm_of (bare_msg 4) 0 5)) = 50 \<and>
   channel_value (norm_of (bare_msg 4) 0 5) = 204 \<and>
   color_str_for_msg (bare_msg 4) 0 5 = ''#3200cc''"
proof -
  have r: "channel_value (binary64 (1 - norm_of (bare_msg 4) 0 5)) = 50"
    by (simp only: norm_of_four_fifths binary64_one_minus_four_fifths channel_value_red_four_fifths)
  have b: "channel_value (norm_of (bare_msg 4) 0 5) = 204"
    by (simp only: norm_of_four_fifths channel_value_blue_four_fifths)
  have "color_str_for_msg (bare_msg 4) 0 5 =
      [CHR ''#'', hex_char (nat 50 div 16), hex_char (nat 50 mod 16), CHR ''0'', CHR ''0'',
       hex_char (nat 204 div 16), hex_char (nat 204 mod 16)]"
    using color_str_for_msg_two_digits[of 0 5 "bare_msg 4"] unfolding r b by simp
  then have "color_str_for_msg (bare_msg 4) 0 5 = ''#3200cc''"
    by (simp add: hex_char_def)
  with r b show ?thesis by simp
qed

section \<open>\<open>dbcview\<close> and \<open>main\<close>\<close>

subsection \<open>What the program takes from its environment\<close>

text \<open>
  \<open>main\<close> calls into Python and its libraries for four things that are no code of the
  program: \<open>list(set(xs))\<close>, whose order Python does not specify, \<open>pathlib.Path(p).stem\<close>,
  \<open>os.path.isdir\<close> and the name of a fresh temporary directory. They are parameters of
  the model. The database is passed as loaded by \<open>cantools.db.load_file(dbc_filename)\<close>.
\<close>

record env =
  list_of_set :: "string list \<Rightarrow> string list"
  path_stem :: "string \<Rightarrow> string"
  isdir :: "string \<Rightarrow> bool"
  temp_dir :: string

datatype py_error = ValueError

text \<open>\<open>min\<close> and \<open>max\<close> of a list raise \<open>ValueError\<close> on the empty list.\<close>

definition py_min :: "int list \<Rightarrow> py_error + int" where
  "py_min xs = (case xs of [] \<Rightarrow> Inl ValueError | x # xs' \<Rightarrow> Inr (fold min xs' x))"

definition py_max :: "int list \<Rightarrow> py_error + int" where
  "py_max xs = (case xs of [] \<Rightarrow> Inl ValueError | x # xs' \<Rightarrow> Inr (fold max xs' x))"

text \<open>\<open>sep.join(xs)\<close>, and the \<open>repr\<close> of a list of strings that need no escaping, as the
  names of nodes are.\<close>

fun join :: "string \<Rightarrow> string list \<Rightarrow> string" where
  "join sep [] = []"
| "join sep [x] = x"
| "join sep (x # y # ys) = x @ sep @ join sep (y # ys)"

definition py_repr :: "string list \<Rightarrow> string" where
  "py_repr xs = ''['' @ join '', '' (map (\<lambda>s. [CHR 0x27] @ s @ [CHR 0x27]) xs) @ '']''"

subsection \<open>\<open>fmt_msg_name\<close>, \<open>get_node_names\<close>, \<open>dbcview\<close>\<close>

text \<open>
  \<^verbatim>\<open>
    def fmt_msg_name(msg):
        return f"{msg.name}\n{hex(msg.frame_id)} ({msg.frame_id})"

    def get_node_names(db):
        return list(set([node.name for node in db.nodes]))

    def dbcview(graph_name, edges, output_dir):
        g = Digraph(name=graph_name, filename=graph_name.replace(' ', '_'))
        min_id = min([msg.frame_id for _, _, msg in edges])
        max_id = max([msg.frame_id for _, _, msg in edges])
        for sender, receiver, msg in edges:
            g.edge(tail_name=sender, head_name=receiver, label=fmt_msg_name(msg),
                   color=color_str_for_msg(msg, min_id=min_id, max_id=max_id))
        g.view(cleanup=True, directory=output_dir)
  \<close>
  The graph handed to \<open>g.view\<close> is the result of the model of \<open>dbcview\<close>; an exception
  raised on the way is the result \<open>Inl\<close>.
\<close>

definition fmt_msg_name :: "message \<Rightarrow> string" where
  "fmt_msg_name msg =
     msg_name msg @ [CHR 0x0A] @ py_hex (frame_id msg) @ '' ('' @ py_str (frame_id msg) @ '')''"

definition get_node_names :: "env \<Rightarrow> database \<Rightarrow> string list" where
  "get_node_names env db = list_of_set env (map node_name (db_nodes db))"

record graph =
  g_name :: string
  g_filename :: string
  g_edges :: "(string \<times> string \<times> string \<times> string) list"
  g_directory :: string

definition dbcview :: "string \<Rightarrow> edge list \<Rightarrow> string \<Rightarrow> py_error + graph" where
  "dbcview graph_name edges output_dir =
     (case py_min (map (\<lambda>(_, _, msg). frame_id msg) edges) of
        Inl e \<Rightarrow> Inl e
      | Inr min_id \<Rightarrow>
          (case py_max (map (\<lambda>(_, _, msg). frame_id msg) edges) of
             Inl e \<Rightarrow> Inl e
           | Inr max_id \<Rightarrow>
               Inr \<lparr>g_name = graph_name,
                    g_filename = map (\<lambda>c. if c = CHR '' '' then CHR ''_'' else c) graph_name,
                    g_edges =
                      map (\<lambda>(sender, receiver, msg).
                             (sender, receiver, fmt_msg_name msg, color_str_for_msg msg min_id max_id))
                          edges,
                    g_directory = output_dir\<rparr>))"

subsection \<open>\<open>main\<close>\<close>

text \<open>
  \<^verbatim>\<open>
    all_nodes = get_node_names(db)
    if all_nodes == []:
        print("No nodes found in this DBC!")
        return
    nonexistent_nodes = [n for n in nodes + senders + receivers + ignore
                         if n not in all_nodes]
    if nonexistent_nodes:
        print(f"specified nodes: [{', '.join(nonexistent_nodes)}] not found in {dbc_filename}")
        print(f"nodes in this file: [{', '.join(get_node_names(db))}]")
        return
    all_nodes = [n for n in all_nodes if n not in ignore]
    if nodes:
        all_receievers = list(set(nodes + all_nodes))
        all_senders = all_receievers
    elif senders or receivers:
        all_receievers = receivers or all_nodes
        all_senders = senders or all_nodes
    else:
        all_receievers = all_nodes
        all_senders = all_nodes
    edges = get_edges(db, all_senders, all_receievers)
    if not edges:
        print(f"No edges found between {all_senders} and {all_receievers}")
    graph_name = pathlib.Path(dbc_filename).stem
    if set(senders) != set(receivers):
        sender_expr = f"from {' '.join(senders)}" if senders else ""
        receiver_expr = f"to {' '.join(receivers)}" if receivers else ""
        if sender_expr or receiver_expr:
            graph_name += f" {sender_expr} {receiver_expr}"
    output_dir = output_dir if os.path.isdir(output_dir) else tempfile.TemporaryDirectory().name
    dbcview(graph_name, edges, output_dir)
  \<close>
  The model of \<open>main\<close> returns the lines printed and how the call ends: it returns, with
  the graph it displayed if it got that far, or it raises. \<open>resolve_sets\<close> is the part
  from the removal of the ignored names to the three filter modes, \<open>name_graph\<close> the part
  that builds the title.
\<close>

definition resolve_sets ::
  "env \<Rightarrow> string list \<Rightarrow> string list \<Rightarrow> string list \<Rightarrow> string list \<Rightarrow> string list
     \<Rightarrow> string list \<times> string list" where
  "resolve_sets env all_nodes nodes senders receivers ignore =
     (let all_nodes = filter (\<lambda>n. n \<notin> set ignore) all_nodes
      in if nodes \<noteq> [] then
           (let all_receievers = list_of_set env (nodes @ all_nodes);
                all_senders = all_receievers
            in (all_senders, all_receievers))
         else if senders \<noteq> [] \<or> receivers \<noteq> [] then
           (let all_receievers = (if receivers \<noteq> [] then receivers else all_nodes);
                all_senders = (if senders \<noteq> [] then senders else all_nodes)
            in (all_senders, all_receievers))
         else
           (let all_receievers = all_nodes;
                all_senders = all_nodes
            in (all_senders, all_receievers)))"

definition name_graph :: "env \<Rightarrow> string \<Rightarrow> string list \<Rightarrow> string list \<Rightarrow> string" where
  "name_graph env dbc_filename senders receivers =
     (let graph_name = path_stem env dbc_filename
      in if set senders \<noteq> set receivers then
           (let sender_expr = (if senders \<noteq> [] then ''from '' @ join '' '' senders else []);
                receiver_expr = (if receivers \<noteq> [] then ''to '' @ join '' '' receivers else [])
            in if sender_expr \<noteq> [] \<or> receiver_expr \<noteq> []
               then graph_name @ '' '' @ sender_expr @ '' '' @ receiver_expr
               else graph_name)
         else graph_name)"

datatype outcome = Returned "graph option" | Raised py_error

definition main ::
  "env \<Rightarrow> string \<Rightarrow> database \<Rightarrow> string list \<Rightarrow> string list \<Rightarrow> string list \<Rightarrow> string list
     \<Rightarrow> string \<Rightarrow> string list \<times> outcome" where
  "main env dbc_filename db nodes senders receivers ignore output_dir =
     (let all_nodes = get_node_names env db
      in if all_nodes = [] then ([''No nodes found in this DBC!''], Returned None)
         else
           (let nonexistent_nodes =
                  filter (\<lambda>n. n \<notin> set all_nodes) (nodes @ senders @ receivers @ ignore)
            in if nonexistent_nodes \<noteq> [] then
                 ([''specified nodes: ['' @ join '', '' nonexistent_nodes @ ''] not found in ''
                     @ dbc_filename,
                   ''nodes in this file: ['' @ join '', '' (get_node_names env db) @ '']''],
                  Returned None)
               else
                 (let (all_senders, all_receievers) =
                        resolve_sets env all_nodes nodes senders receivers ignore;
                      (edges, db') = get_edges db all_senders all_receievers;
                      printed =
                        (if edges = []
                         then [''No edges found between '' @ py_repr all_senders @ '' and ''
                                 @ py_repr all_receievers]
                         else []);
                      graph_name = name_graph env dbc_filename senders receivers;
                      output_dir = (if isdir env output_dir then output_dir else temp_dir env)
                  in case dbcview graph_name edges output_dir of
                       Inl e \<Rightarrow> (printed, Raised e)
                     | Inr g \<Rightarrow> (printed, Returned (Some g)))))"

subsection \<open>Facts about the helpers of \<open>main\<close>\<close>

lemma dbcview_no_edges: "dbcview graph_name [] output_dir = Inl ValueError"
  by (simp add: dbcview_def py_min_def)

lemma set_get_node_names:
  "\<forall>xs. set (list_of_set env xs) = set xs \<Longrightarrow>
     set (get_node_names env db) = node_name ` set (db_nodes db)"
  by (simp add: get_node_names_def)

lemma get_node_names_empty:
  assumes "\<forall>xs. set (list_of_set env xs) = set xs"
  shows "get_node_names env db = [] \<longleftrightarrow> db_nodes db = []"
proof -
  have "get_node_names env db = [] \<longleftrightarrow> set (get_node_names env db) = {}"
    by simp
  also have "\<dots> \<longleftrightarrow> db_nodes db = []"
    using set_get_node_names[OF assms, of db] by simp
  finally show ?thesis .
qed

text \<open>
  Once the names are validated, an empty edge list makes \<open>main\<close> print its message and
  then fail in \<open>dbcview\<close>, whose \<open>min\<close> over the identifiers of no edges raises
  \<open>ValueError\<close>.
\<close>

lemma main_no_edges:
  assumes "get_node_names env db \<noteq> []"
    and "filter (\<lambda>n. n \<notin> set (get_node_names env db)) (nodes @ senders @ receivers @ ignore) = []"
    and "resolve_sets env (get_node_names env db) nodes senders receivers ignore
           = (all_senders, all_receievers)"
    and "fst (get_edges db all_senders all_receievers) = []"
  shows "main env dbc_filename db nodes senders receivers ignore output_dir =
           ([''No edges found between '' @ py_repr all_senders @ '' and '' @ py_repr all_receievers],
            Raised ValueError)"
proof -
  obtain edges db' where g: "get_edges db all_senders all_receievers = (edges, db')"
    by (cases "get_edges db all_senders all_receievers")
  with assms(4) have e: "edges = []" by simp
  show ?thesis
    unfolding main_def Let_def
    using assms(1,2) by (simp add: assms(3) g e dbcview_no_edges)
qed

text \<open>
  Claim C1. The claim says that a run whose edge list is empty reports it and then ends
  without an unhandled error. The code prints the report and goes on to call \<open>dbcview\<close>
  with the empty edge list; there \<open>min\<close> of an empty list raises \<open>ValueError\<close>, which
  nothing catches. Input: a database with the nodes \<open>A\<close> and \<open>B\<close> and one message sent
  by \<open>A\<close> whose only signal has no receiver, no filters.
\<close>

theorem main_no_edges_raises_ValueError:
  "main \<lparr>list_of_set = remdups, path_stem = (\<lambda>p. p), isdir = (\<lambda>d. False), temp_dir = ''/tmp/t''\<rparr>
        ''bus.dbc''
        \<lparr>db_nodes = [\<lparr>node_name = ''A''\<rparr>, \<lparr>node_name = ''B''\<rparr>],
         db_messages = [\<lparr>frame_id = 0x100, msg_name = ''M'', msg_senders = [''A''],
                          msg_signals = [\<lparr>sig_receivers = []\<rparr>]\<rparr>]\<rparr>
        [] [] [] [] []
     = ([''No edges found between '' @ py_repr [''A'', ''B''] @ '' and '' @ py_repr [''A'', ''B'']],
        Raised ValueError)"
  by (simp add: main_def get_node_names_def resolve_sets_def get_edges_def
      messages_from_a_to_b_def sort_messages_by_CAN_id_def sort_loop.simps dbcview_def py_min_def
      Let_def)

text \<open>
  Claim C6. If the database declares no node, or if some name given in \<open>nodes\<close>,
  \<open>senders\<close>, \<open>receivers\<close> or \<open>ignore\<close> is not the name of a node of the database, \<open>main\<close>
  prints a diagnostic and returns: no edge is computed, no graph is produced and nothing
  is raised. For unknown names the first line lists every offending name (in the order
  given, separated by a comma and a space) and the second line lists the node names of
  the database, which are exactly the valid names. \<open>list_of_set\<close> stands for Python's
  \<open>list(set(...))\<close>, whose order is not specified: all that is assumed of it is that it
  keeps the set of names.
\<close>

theorem main_invalid_names:
  assumes "\<forall>xs. set (list_of_set env xs) = set xs"
    and "db_nodes db = [] \<or>
         (\<exists>n \<in> set (nodes @ senders @ receivers @ ignore). n \<notin> node_name ` set (db_nodes db))"
  shows "main env dbc_filename db nodes senders receivers ignore output_dir =
      (if db_nodes db = [] then ([''No nodes found in this DBC!''], Returned None)
       else ([''specified nodes: [''
                @ join '', '' (filter (\<lambda>n. n \<notin> node_name ` set (db_nodes db))
                                 (nodes @ senders @ receivers @ ignore))
                @ ''] not found in '' @ dbc_filename,
              ''nodes in this file: ['' @ join '', '' (get_node_names env db) @ '']''],
             Returned None)) \<and>
    set (get_node_names env db) = node_name ` set (db_nodes db)"
proof -
  note s = set_get_node_names[OF assms(1), of db]
  note e = get_node_names_empty[OF assms(1), of db]
  show ?thesis
  proof (cases "db_nodes db = []")
    case True
    then show ?thesis using e s by (simp add: main_def)
  next
    case False
    with assms(2) have "filter (\<lambda>n. n \<notin> node_name ` set (db_nodes db))
        (nodes @ senders @ receivers @ ignore) \<noteq> []"
      by (simp add: filter_empty_conv) blast
    with False show ?thesis using e s by (simp add: main_def Let_def)
  qed
qed

theorem main_invalid_names_witness:
  "main \<lparr>list_of_set = remdups, path_stem = (\<lambda>p. p), isdir = (\<lambda>d. False), temp_dir = ''/tmp/t''\<rparr>
        ''bus.dbc''
        \<lparr>db_nodes = [\<lparr>node_name = ''A''\<rparr>, \<lparr>node_name = ''B''\<rparr>, \<lparr>node_name = ''C''\<rparr>],
         db_messages = []\<rparr>
        [] [''D''] [] [] []
     = ([''specified nodes: [D] not found in bus.dbc'', ''nodes in this file: [A, B, C]''],
        Returned None)"
proof -
  let ?env = "\<lparr>list_of_set = remdups, path_stem = (\<lambda>p. p), isdir = (\<lambda>d. False),
                temp_dir = ''/tmp/t''\<rparr>"
  let ?db = "\<lparr>db_nodes = [\<lparr>node_name = ''A''\<rparr>, \<lparr>node_name = ''B''\<rparr>, \<lparr>node_name = ''C''\<rparr>],
               db_messages = []\<rparr>"
  have 1: "\<forall>xs. set (list_of_set ?env xs) = set xs" by simp
  have 2: "db_nodes ?db = [] \<or>
      (\<exists>n \<in> set ([] @ [''D''] @ [] @ []). n \<notin> node_name ` set (db_nodes ?db))"
    by simp
  from main_invalid_names[OF 1 2, of "''bus.dbc''" "[]"]
  show ?thesis by (simp add: get_node_names_def)
qed

text \<open>
  Claim C7. \<open>resolve_sets\<close> is the part of \<open>main\<close> between the validation and the call of
  \<open>get_edges\<close>: it removes the ignored names from the pool of all nodes and resolves the
  sender and receiver sets. With every given name valid, as \<open>main\<close> has checked by then:
  the names given in \<open>nodes\<close> are in both resolved sets, whether ignored or not; without
  \<open>nodes\<close>, the names given in \<open>senders\<close> and \<open>receivers\<close> are in their resolved set; and
  when no ignored name is among the explicit filters, no ignored name is in either
  resolved set, while every explicitly given name is in its resolved set.
\<close>

theorem resolve_sets_ignore:
  assumes "\<forall>xs. set (list_of_set env xs) = set xs"
    and "set (nodes @ senders @ receivers @ ignore) \<subseteq> set all_nodes"
    and "resolve_sets env all_nodes nodes senders receivers ignore = (all_senders, all_receievers)"
  shows "set nodes \<subseteq> set all_senders \<inter> set all_receievers \<and>
    (nodes = [] \<longrightarrow> set senders \<subseteq> set all_senders \<and> set receivers \<subseteq> set all_receievers) \<and>
    (set ignore \<inter> set (nodes @ senders @ receivers) = {} \<longrightarrow>
       set ignore \<inter> set all_senders = {} \<and> set ignore \<inter> set all_receievers = {} \<and>
       set senders \<subseteq> set all_senders \<and> set receivers \<subseteq> set all_receievers)"
proof (cases "nodes = []")
  case False
  then have "all_senders = list_of_set env (nodes @ filter (\<lambda>n. n \<notin> set ignore) all_nodes)"
    and "all_receievers = list_of_set env (nodes @ filter (\<lambda>n. n \<notin> set ignore) all_nodes)"
    using assms(3) by (auto simp: resolve_sets_def Let_def)
  then have s: "set all_senders = set nodes \<union> {n \<in> set all_nodes. n \<notin> set ignore}"
    and r: "set all_receievers = set nodes \<union> {n \<in> set all_nodes. n \<notin> set ignore}"
    using assms(1) by auto
  show ?thesis using False assms(2) unfolding s r by auto
next
  case True
  have s: "all_senders = (if senders \<noteq> [] then senders else filter (\<lambda>n. n \<notin> set ignore) all_nodes)"
    and r: "all_receievers = (if receivers \<noteq> [] then receivers else filter (\<lambda>n. n \<notin> set ignore) all_nodes)"
    using assms(3) True by (auto simp: resolve_sets_def Let_def split: if_splits)
  show ?thesis using True unfolding s r by auto
qed

theorem resolve_sets_ignore_witness:
  "resolve_sets \<lparr>list_of_set = remdups, path_stem = (\<lambda>p. p), isdir = (\<lambda>d. False), temp_dir = ''/tmp/t''\<rparr>
       [''A'', ''B'', ''C'', ''D''] [] [''A''] [] [''C'']
     = ([''A''], [''A'', ''B'', ''D'']) \<and>
   set [''C''] \<inter> set [''A''] = {} \<and>
   set [''C''] \<inter> set [''A'', ''B'', ''D''] = {} \<and>
   set [''A''] \<subseteq> set [''A'']"
proof -
  let ?env = "\<lparr>list_of_set = remdups, path_stem = (\<lambda>p. p), isdir = (\<lambda>d. False),
                temp_dir = ''/tmp/t''\<rparr>"
  have 1: "\<forall>xs. set (list_of_set ?env xs) = set xs" by simp
  have 2: "set ([] @ [''A''] @ [] @ [''C'']) \<subseteq> set [''A'', ''B'', ''C'', ''D'']" by simp
  have 3: "resolve_sets ?env [''A'', ''B'', ''C'', ''D''] [] [''A''] [] [''C'']
      = ([''A''], [''A'', ''B'', ''D''])"
    by (simp add: resolve_sets_def)
  have 4: "set [''C''] \<inter> set ([] @ [''A''] @ []) = {}" by simp
  from resolve_sets_ignore[OF 1 2 3] 4
  have "set [''C''] \<inter> set [''A''] = {} \<and> set [''C''] \<inter> set [''A'', ''B'', ''D''] = {} \<and>
        set [''A''] \<subseteq> set [''A'']"
    by blast
  with 3 show ?thesis by simp
qed

end
